theory Spec2Isabelle
  imports Main
begin

section \<open>Python string and list primitives used by \<^verbatim>\<open>mkinit/formatting.py\<close>\<close>

text \<open>
  Python text is modelled as \<^typ>\<open>string\<close>; one \<^typ>\<open>char\<close> stands for one code point
  below 256. Python integers (line numbers, slice bounds) are \<^typ>\<open>int\<close>.
\<close>

definition NL :: char where
  "NL = CHR 0x0A"

text \<open>
  The characters removed by \<^verbatim>\<open>str.strip()\<close> and \<^verbatim>\<open>str.rstrip()\<close> without an
  argument: the code points below 256 for which \<^verbatim>\<open>str.isspace\<close> holds
  (tab, line feed, vertical tab, form feed, carriage return, the four separators
  0x1C..0x1F, space, NEL and the no-break space).
\<close>

definition isspace :: "char \<Rightarrow> bool" where
  "isspace c \<longleftrightarrow> c \<in> set [CHR 0x09, CHR 0x0A, CHR 0x0B, CHR 0x0C, CHR 0x0D,
                          CHR 0x1C, CHR 0x1D, CHR 0x1E, CHR 0x1F, CHR 0x20,
                          CHR 0x85, CHR 0xA0]"

definition lstrip :: "string \<Rightarrow> string" where
  "lstrip s = dropWhile isspace s"

definition rstrip :: "string \<Rightarrow> string" where
  "rstrip s = rev (dropWhile isspace (rev s))"

definition strip :: "string \<Rightarrow> string" where
  "strip s = rstrip (lstrip s)"

text \<open>\<^verbatim>\<open>p.rstrip('\n')\<close>: only trailing line feeds are removed.\<close>

definition rstrip_nl :: "string \<Rightarrow> string" where
  "rstrip_nl s = rev (dropWhile (\<lambda>c. c = NL) (rev s))"

definition startswith :: "string \<Rightarrow> string \<Rightarrow> bool" where
  "startswith s p \<longleftrightarrow> take (length p) s = p"

text \<open>\<^verbatim>\<open>s.startswith(tuple)\<close>: some member of the tuple is a prefix.\<close>

definition startswith_any :: "string \<Rightarrow> string list \<Rightarrow> bool" where
  "startswith_any s ps \<longleftrightarrow> list_ex (startswith s) ps"

text \<open>\<^verbatim>\<open>s.find(c)\<close>: the index of the first occurrence, or -1.\<close>

definition find_char :: "char \<Rightarrow> string \<Rightarrow> int" where
  "find_char c s = (if c \<in> set s then int (length (takeWhile (\<lambda>x. x \<noteq> c) s)) else - 1)"

text \<open>
  Python slices \<^verbatim>\<open>xs[:k]\<close> and \<^verbatim>\<open>xs[k:]\<close>: a negative bound counts from the end, and
  a bound outside the list is clipped.
\<close>

definition slice_to :: "int \<Rightarrow> 'a list \<Rightarrow> 'a list" where
  "slice_to k xs = take (nat (if k < 0 then int (length xs) + k else k)) xs"

definition slice_from :: "int \<Rightarrow> 'a list \<Rightarrow> 'a list" where
  "slice_from k xs = drop (nat (if k < 0 then int (length xs) + k else k)) xs"

text \<open>\<^verbatim>\<open>text.replace('\n', '\n' + indent)\<close>.\<close>

definition replace_nl :: "string \<Rightarrow> string \<Rightarrow> string" where
  "replace_nl ind text = concat (map (\<lambda>c. if c = NL then NL # ind else [c]) text)"

text \<open>\<^verbatim>\<open>text.split('\n')\<close>: always at least one piece, none of which holds a line feed.\<close>

fun split_nl :: "string \<Rightarrow> string list" where
  "split_nl [] = [[]]"
| "split_nl (c # cs) =
     (if c = NL then [] # split_nl cs
      else (c # hd (split_nl cs)) # tl (split_nl cs))"

text \<open>\<^verbatim>\<open>'\n'.join(pieces)\<close>.\<close>

fun join_nl :: "string list \<Rightarrow> string" where
  "join_nl [] = []"
| "join_nl [x] = x"
| "join_nl (x # y # ys) = x @ NL # join_nl (y # ys)"

text \<open>
  \<^verbatim>\<open>file_.readlines()\<close> on a file opened with \<^verbatim>\<open>open(path, 'r')\<close> reads in universal
  newlines mode: a carriage return followed by a line feed, and a carriage return alone,
  both end a line and are handed over as one line feed. The text is then cut after every
  line feed; each line keeps its line feed, and a last line without one is kept as it is.
\<close>

definition CR :: char where
  "CR = CHR 0x0D"

fun universal_newlines :: "string \<Rightarrow> string" where
  "universal_newlines [] = []"
| "universal_newlines [c] = (if c = CR then [NL] else [c])"
| "universal_newlines (c # d # ds) =
     (if c = CR \<and> d = NL then NL # universal_newlines ds
      else if c = CR then NL # universal_newlines (d # ds)
      else c # universal_newlines (d # ds))"

fun cut_lines :: "string \<Rightarrow> string list" where
  "cut_lines [] = []"
| "cut_lines (c # cs) =
     (if c = NL then [NL] # cut_lines cs
      else (case cut_lines cs of [] \<Rightarrow> [[c]] | l # ls \<Rightarrow> (c # l) # ls))"

definition readlines :: "string \<Rightarrow> string list" where
  "readlines t = cut_lines (universal_newlines t)"

text \<open>\<^verbatim>\<open>ps1_lines.index(lineno)\<close>: the first position of the value; \<open>None\<close> stands for
  \<^verbatim>\<open>ValueError\<close>.\<close>

fun list_index :: "'a list \<Rightarrow> 'a \<Rightarrow> nat option" where
  "list_index [] v = None"
| "list_index (x # xs) v =
     (if x = v then Some 0 else map_option Suc (list_index xs v))"

section \<open>The insertion-point locator \<^verbatim>\<open>_find_insert_points\<close>\<close>

datatype error = AssertionError | IndexError | ScannerError

text \<open>
  The statement scanner \<^verbatim>\<open>static._locate_ps1_linenos\<close> lives in another module. It is a
  parameter \<open>scan\<close> of the model: applied to the prompt-prefixed source lines it either
  returns the list \<^verbatim>\<open>ps1_lines\<close> of statement boundaries or raises. \<open>Inl IndexError\<close> is
  the exception the locator catches; any other exception escapes from the locator as it is.
\<close>

type_synonym scanner = "string list \<Rightarrow> error + int list"

definition source_lines :: "string list \<Rightarrow> string list" where
  "source_lines lines = map (\<lambda>p. ''>>> '' @ rstrip_nl p) lines"

definition implicit_patterns :: "string list" where
  "implicit_patterns =
     [''from __future__'', ''__version__'', ''__submodules__'',
      ''__external__'', ''__private__'', ''__protected__'',
      ''#'', [CHR 0x22, CHR 0x22, CHR 0x22], [CHR 0x27, CHR 0x27, CHR 0x27]]"

definition open_tag :: string where
  "open_tag = ''# <AUTOGEN_INIT>''"

definition close_tag :: string where
  "close_tag = ''# </AUTOGEN_INIT>''"

record locator_state =
  startline :: int
  endline :: int
  explicit_flag :: bool
  init_indent :: string
  skipto :: "int option"

text \<open>
  Lines 168 to 181: the line is respected, and the \<^verbatim>\<open>try\<close> block looks for the next
  statement boundary. \<^verbatim>\<open>ValueError\<close> (the line is no boundary) keeps \<open>lineno + 1\<close>;
  \<^verbatim>\<open>IndexError\<close> (no later boundary) moves the start to the current end and leaves
  \<open>skipto\<close> unset.
\<close>

definition respect_line :: "int list \<Rightarrow> int \<Rightarrow> locator_state \<Rightarrow> locator_state" where
  "respect_line ps1_lines lineno st =
     (let st1 = st\<lparr>startline := lineno + 1\<rparr> in
      case list_index ps1_lines lineno of
        None \<Rightarrow> st1
      | Some idx \<Rightarrow>
          if idx + 1 < length ps1_lines
          then st1\<lparr>skipto := Some (ps1_lines ! (idx + 1)),
                   startline := ps1_lines ! (idx + 1)\<rparr>
          else st1\<lparr>startline := endline st1\<rparr>)"

text \<open>One iteration of the \<^verbatim>\<open>for lineno, line in enumerate(lines)\<close> loop (lines 159 to 189).\<close>

definition loop_body :: "int list \<Rightarrow> int \<Rightarrow> string \<Rightarrow> locator_state \<Rightarrow> locator_state" where
  "loop_body ps1_lines lineno line st =
     (if skipto st \<noteq> None \<and> skipto st \<noteq> Some lineno then st
      else
        let st0 = st\<lparr>skipto := None\<rparr>;
            st1 = (if \<not> explicit_flag st0 \<and> startswith_any (strip line) implicit_patterns
                   then respect_line ps1_lines lineno st0 else st0);
            st2 = (if startswith (strip line) open_tag
                   then st1\<lparr>init_indent := slice_to (find_char (CHR ''#'') line) line,
                            explicit_flag := True,
                            startline := lineno + 1\<rparr>
                   else st1);
            st3 = (if explicit_flag st2 \<and> startswith (strip line) close_tag
                   then st2\<lparr>endline := lineno\<rparr> else st2)
        in st3)"

fun run_loop :: "int list \<Rightarrow> int \<Rightarrow> string list \<Rightarrow> locator_state \<Rightarrow> locator_state" where
  "run_loop ps1_lines lineno [] st = st"
| "run_loop ps1_lines lineno (line # rest) st =
     run_loop ps1_lines (lineno + 1) rest (loop_body ps1_lines lineno line st)"

definition init_state :: "string list \<Rightarrow> locator_state" where
  "init_state lines =
     \<lparr>startline = 0, endline = int (length lines), explicit_flag = False,
      init_indent = [], skipto = None\<rparr>"

text \<open>Lines 134 to 139: the scanner call and the handler of \<^verbatim>\<open>IndexError\<close>.\<close>

definition locate_ps1 :: "scanner \<Rightarrow> string list \<Rightarrow> error + int list" where
  "locate_ps1 scan lines =
     (case scan (source_lines lines) of
        Inr ps1_lines \<Rightarrow> Inr ps1_lines
      | Inl IndexError \<Rightarrow> if length lines = 0 then Inr [] else Inl AssertionError
      | Inl e \<Rightarrow> Inl e)"

definition find_insert_points :: "scanner \<Rightarrow> string list \<Rightarrow> error + (int \<times> int \<times> string)" where
  "find_insert_points scan lines =
     (case locate_ps1 scan lines of
        Inl e \<Rightarrow> Inl e
      | Inr ps1_lines \<Rightarrow>
          let st = run_loop ps1_lines 0 lines (init_state lines) in
          if startline st \<le> endline st
          then Inr (startline st, endline st, init_indent st)
          else Inl AssertionError)"

text \<open>
  The three tests the loop makes on a line, and the lines a pass looks at: line \<open>k\<close> is
  evaluated when no pending \<open>skipto\<close> jumps over it.
\<close>

definition is_implicit :: "string \<Rightarrow> bool" where
  "is_implicit line \<longleftrightarrow> startswith_any (strip line) implicit_patterns"

definition is_open_marker :: "string \<Rightarrow> bool" where
  "is_open_marker line \<longleftrightarrow> startswith (strip line) open_tag"

definition is_close_marker :: "string \<Rightarrow> bool" where
  "is_close_marker line \<longleftrightarrow> startswith (strip line) close_tag"

definition evaluated :: "int list \<Rightarrow> string list \<Rightarrow> nat \<Rightarrow> bool" where
  "evaluated ps1_lines lines k \<longleftrightarrow>
     (let st = run_loop ps1_lines 0 (take k lines) (init_state lines)
      in skipto st = None \<or> skipto st = Some (int k))"

section \<open>The merge: \<^verbatim>\<open>_indent\<close> and \<^verbatim>\<open>_insert_autogen_text\<close>\<close>

definition indent :: "string \<Rightarrow> string \<Rightarrow> string" where
  "indent text ind = join_nl (map rstrip (split_nl (ind @ replace_nl ind text)))"

text \<open>Lines 65 to 70, on the lines already read.\<close>

definition insert_autogen_lines :: "scanner \<Rightarrow> string list \<Rightarrow> string \<Rightarrow> error + string" where
  "insert_autogen_lines scan lines initstr =
     (case find_insert_points scan lines of
        Inl e \<Rightarrow> Inl e
      | Inr (start, end, ind) \<Rightarrow>
          let initstr' = indent initstr ind @ [NL];
              new_lines = slice_to start lines @ [initstr'] @ slice_from end lines
          in Inr (rstrip (concat new_lines) @ [NL]))"

text \<open>
  \<^verbatim>\<open>_insert_autogen_text\<close>: \<open>file\<close> is the text of \<^verbatim>\<open>__init__.py\<close> when it exists. The
  path that the source returns beside the text does not depend on the text and is left out.
\<close>

definition insert_autogen_text :: "scanner \<Rightarrow> string option \<Rightarrow> string \<Rightarrow> error + string" where
  "insert_autogen_text scan file initstr =
     insert_autogen_lines scan (case file of None \<Rightarrow> [] | Some t \<Rightarrow> readlines t) initstr"

section \<open>Well-formed line lists\<close>

text \<open>
  The shape of what \<^const>\<open>readlines\<close> returns: a complete line is a run of characters
  other than the line feed followed by one line feed; in a list of file lines every line
  but the last is complete, and the last one is non-empty with no line feed before its
  last character.
\<close>

definition complete_line :: "string \<Rightarrow> bool" where
  "complete_line l \<longleftrightarrow> l \<noteq> [] \<and> last l = NL \<and> NL \<notin> set (butlast l)"

fun file_lines :: "string list \<Rightarrow> bool" where
  "file_lines [] \<longleftrightarrow> True"
| "file_lines [l] \<longleftrightarrow> l \<noteq> [] \<and> NL \<notin> set (butlast l)"
| "file_lines (l # l' # ls) \<longleftrightarrow> complete_line l \<and> file_lines (l' # ls)"

section \<open>Facts about the locator\<close>

lemma pass_comment_x_y:
  "run_loop [0, 1, 2] 0 [''#comment'', ''x = 1'', ''y = 2'']
     (init_state [''#comment'', ''x = 1'', ''y = 2''])
   = \<lparr>startline = 1, endline = 3, explicit_flag = False, init_indent = [], skipto = None\<rparr>"
  by code_simp

lemma x_no_pattern: "\<not> is_implicit ''x = 1''"
  by code_simp

lemma startswith_iff: "startswith s p \<longleftrightarrow> (\<exists>t. s = p @ t)"
proof
  assume "startswith s p"
  then have "s = p @ drop (length p) s"
    by (metis append_take_drop_id startswith_def)
  then show "\<exists>t. s = p @ t" ..
next
  assume "\<exists>t. s = p @ t"
  then show "startswith s p" by (auto simp add: startswith_def)
qed

lemma open_not_close: "is_open_marker l \<Longrightarrow> \<not> is_close_marker l"
  by (auto simp add: is_open_marker_def is_close_marker_def startswith_iff open_tag_def close_tag_def)

lemma run_loop_append:
  "run_loop ps n (xs @ ys) st = run_loop ps (n + int (length xs)) ys (run_loop ps n xs st)"
  by (induction xs arbitrary: n st) (simp_all add: add.assoc)

lemma loop_body_skipped:
  "skipto st = Some k \<Longrightarrow> k \<noteq> n \<Longrightarrow> loop_body ps n l st = st"
  by (simp add: loop_body_def)

lemma loop_body_explicit_plain:
  assumes "explicit_flag st" "\<not> is_open_marker l"
  shows "explicit_flag (loop_body ps n l st) \<and> startline (loop_body ps n l st) = startline st
       \<and> init_indent (loop_body ps n l st) = init_indent st"
  using assms by (simp add: loop_body_def Let_def is_open_marker_def)

lemma loop_body_explicit_endline:
  assumes "explicit_flag st" "\<not> is_open_marker l" "\<not> is_close_marker l"
  shows "endline (loop_body ps n l st) = endline st"
  using assms by (simp add: loop_body_def Let_def is_open_marker_def is_close_marker_def)

lemma run_loop_explicit_plain:
  assumes "explicit_flag st" "\<forall>l\<in>set xs. \<not> is_open_marker l"
  shows "explicit_flag (run_loop ps n xs st) \<and> startline (run_loop ps n xs st) = startline st
       \<and> init_indent (run_loop ps n xs st) = init_indent st"
  using assms
proof (induction xs arbitrary: n st)
  case Nil
  then show ?case by simp
next
  case (Cons a xs)
  from Cons.prems have a: "\<not> is_open_marker a" and xs: "\<forall>l\<in>set xs. \<not> is_open_marker l" by simp_all
  note b = loop_body_explicit_plain [OF Cons.prems(1) a, of ps n]
  from Cons.IH [OF _ xs, of "loop_body ps n a st" "n + 1"] b show ?case by simp
qed

lemma run_loop_explicit_endline:
  assumes "explicit_flag st" "\<forall>l\<in>set xs. \<not> is_open_marker l" "\<forall>l\<in>set xs. \<not> is_close_marker l"
  shows "endline (run_loop ps n xs st) = endline st"
  using assms
proof (induction xs arbitrary: n st)
  case Nil
  then show ?case by simp
next
  case (Cons a xs)
  from Cons.prems have a: "\<not> is_open_marker a" "\<not> is_close_marker a"
    and xs: "\<forall>l\<in>set xs. \<not> is_open_marker l" "\<forall>l\<in>set xs. \<not> is_close_marker l" by simp_all
  note b = loop_body_explicit_plain [OF Cons.prems(1) a(1), of ps n]
    and e = loop_body_explicit_endline [OF Cons.prems(1) a, of ps n]
  from Cons.IH [OF _ xs, of "loop_body ps n a st" "n + 1"] b e show ?case by simp
qed

lemma loop_body_open:
  assumes "skipto st = None \<or> skipto st = Some n" "is_open_marker l"
  shows "explicit_flag (loop_body ps n l st) \<and> startline (loop_body ps n l st) = n + 1
       \<and> init_indent (loop_body ps n l st) = slice_to (find_char (CHR ''#'') l) l
       \<and> endline (loop_body ps n l st) = endline st"
proof -
  have nc: "\<not> startswith (strip l) close_tag"
    using open_not_close [OF assms(2)] by (simp add: is_close_marker_def)
  have o: "startswith (strip l) open_tag" using assms(2) by (simp add: is_open_marker_def)
  show ?thesis using assms(1) nc o
    by (auto simp add: loop_body_def Let_def respect_line_def split: option.splits)
qed

lemma loop_body_close:
  assumes "skipto st = None \<or> skipto st = Some n" "explicit_flag st" "is_close_marker l"
  shows "endline (loop_body ps n l st) = n"
  using assms by (auto simp add: loop_body_def Let_def is_close_marker_def)


lemma run_loop_markers_split:
  assumes lines: "lines = pre @ op # mid @ cl # post"
    and op: "is_open_marker op" and cl: "is_close_marker cl"
    and no_open: "\<forall>l\<in>set (mid @ cl # post). \<not> is_open_marker l"
    and no_close: "\<forall>l\<in>set post. \<not> is_close_marker l"
    and ev_op: "evaluated ps lines (length pre)"
    and ev_cl: "evaluated ps lines (length pre + 1 + length mid)"
  shows "startline (run_loop ps 0 lines (init_state lines)) = int (length pre) + 1
       \<and> endline (run_loop ps 0 lines (init_state lines)) = int (length pre) + 1 + int (length mid)
       \<and> init_indent (run_loop ps 0 lines (init_state lines)) = slice_to (find_char (CHR ''#'') op) op"
proof -
  define s0 where "s0 = run_loop ps 0 pre (init_state lines)"
  define s1 where "s1 = loop_body ps (int (length pre)) op s0"
  define s2 where "s2 = run_loop ps (int (length pre) + 1) mid s1"
  define s3 where "s3 = loop_body ps (int (length pre) + 1 + int (length mid)) cl s2"
  define s4 where "s4 = run_loop ps (int (length pre) + 1 + int (length mid) + 1) post s3"
  have final: "run_loop ps 0 lines (init_state lines) = s4"
    by (simp add: lines run_loop_append s0_def s1_def s2_def s3_def s4_def add.assoc)
  have "take (length pre) lines = pre" by (simp add: lines)
  with ev_op have k0: "skipto s0 = None \<or> skipto s0 = Some (int (length pre))"
    by (simp add: evaluated_def s0_def Let_def)
  have "take (length pre + 1 + length mid) lines = pre @ op # mid" by (simp add: lines)
  with ev_cl have k2: "skipto s2 = None \<or> skipto s2 = Some (int (length pre) + 1 + int (length mid))"
    by (auto simp add: evaluated_def Let_def run_loop_append s0_def s1_def s2_def algebra_simps)
  note p1 = loop_body_open [OF k0 op, of ps, folded s1_def]
  have mid: "\<forall>l\<in>set mid. \<not> is_open_marker l" and ncl: "\<not> is_open_marker cl"
    and post: "\<forall>l\<in>set post. \<not> is_open_marker l"
    using no_open by simp_all
  from p1 have e1: "explicit_flag s1" by simp
  note p2 = run_loop_explicit_plain [OF e1 mid, of ps "int (length pre) + 1", folded s2_def]
  from p2 have e2: "explicit_flag s2" by simp
  note p3 = loop_body_explicit_plain [OF e2 ncl, of ps "int (length pre) + 1 + int (length mid)", folded s3_def]
  note q3 = loop_body_close [OF k2 e2 cl, of ps, folded s3_def]
  from p3 have e3: "explicit_flag s3" by simp
  note p4 = run_loop_explicit_plain [OF e3 post, of ps "int (length pre) + 1 + int (length mid) + 1", folded s4_def]
  note q4 = run_loop_explicit_endline [OF e3 post no_close, of ps "int (length pre) + 1 + int (length mid) + 1", folded s4_def]
  show ?thesis using final p1 p2 p3 q3 p4 q4 by simp
qed

lemma run_loop_markers:
  assumes ij: "i < j" "j < length lines"
    and op: "is_open_marker (lines ! i)" and cl: "is_close_marker (lines ! j)"
    and no_open: "\<forall>l\<in>set (drop (Suc i) lines). \<not> is_open_marker l"
    and no_close: "\<forall>l\<in>set (drop (Suc j) lines). \<not> is_close_marker l"
    and ev: "evaluated ps lines i" "evaluated ps lines j"
  shows "startline (run_loop ps 0 lines (init_state lines)) = int i + 1
       \<and> endline (run_loop ps 0 lines (init_state lines)) = int j
       \<and> init_indent (run_loop ps 0 lines (init_state lines))
           = slice_to (find_char (CHR ''#'') (lines ! i)) (lines ! i)"
proof -
  define pre where "pre = take i lines"
  define mid where "mid = take (j - Suc i) (drop (Suc i) lines)"
  define post where "post = drop (Suc j) lines"
  have l1: "lines = pre @ lines ! i # drop (Suc i) lines"
    using ij by (simp add: pre_def id_take_nth_drop [symmetric])
  have jj: "j - Suc i < length (drop (Suc i) lines)" using ij by simp
  have "drop (Suc i) lines
      = mid @ drop (Suc i) lines ! (j - Suc i) # drop (Suc (j - Suc i)) (drop (Suc i) lines)"
    unfolding mid_def by (rule id_take_nth_drop [OF jj])
  then have l2: "drop (Suc i) lines = mid @ lines ! j # post"
    using ij by (simp add: post_def)
  have lines: "lines = pre @ lines ! i # mid @ lines ! j # post"
    using l1 l2 by simp
  have lp: "length pre = i" using ij by (simp add: pre_def)
  have lm: "length mid = j - Suc i" using ij by (simp add: mid_def)
  have no_open': "\<forall>l\<in>set (mid @ lines ! j # post). \<not> is_open_marker l"
    using no_open l2 by simp
  have no_close': "\<forall>l\<in>set post. \<not> is_close_marker l"
    using no_close by (simp add: post_def)
  have ev1: "evaluated ps lines (length pre)" using ev(1) lp by simp
  have "length pre + 1 + length mid = j" using lp lm ij by simp
  then have ev2: "evaluated ps lines (length pre + 1 + length mid)" using ev(2) by simp
  have "int (length pre) + 1 + int (length mid) = int j" using lp lm ij by simp
  with run_loop_markers_split [OF lines op cl no_open' no_close' ev1 ev2] lp
  show ?thesis by simp
qed

lemma find_insert_points_markers:
  assumes "locate_ps1 scan lines = Inr ps"
    and "i < j" "j < length lines"
    and "is_open_marker (lines ! i)" "is_close_marker (lines ! j)"
    and "\<forall>l\<in>set (drop (Suc i) lines). \<not> is_open_marker l"
    and "\<forall>l\<in>set (drop (Suc j) lines). \<not> is_close_marker l"
    and "evaluated ps lines i" "evaluated ps lines j"
  shows "find_insert_points scan lines
       = Inr (int i + 1, int j, slice_to (find_char (CHR ''#'') (lines ! i)) (lines ! i))"
  using run_loop_markers [OF assms(2-9)] assms(1,2)
  by (simp add: find_insert_points_def Let_def)


lemma respect_line_bounds:
  assumes "0 \<le> n" "\<forall>b\<in>set ps. 0 \<le> b" "0 \<le> endline st" "endline st \<le> len"
  shows "0 \<le> startline (respect_line ps n st) \<and> endline (respect_line ps n st) = endline st"
  using assms by (auto simp add: respect_line_def Let_def split: option.splits)

lemma loop_body_bounds:
  assumes "0 \<le> n" "n < len" "\<forall>b\<in>set ps. 0 \<le> b"
    and "0 \<le> startline st" "0 \<le> endline st" "endline st \<le> len"
  shows "0 \<le> startline (loop_body ps n l st) \<and> 0 \<le> endline (loop_body ps n l st)
       \<and> endline (loop_body ps n l st) \<le> len"
proof -
  have r: "0 \<le> startline (respect_line ps n (st\<lparr>skipto := None\<rparr>))
       \<and> endline (respect_line ps n (st\<lparr>skipto := None\<rparr>)) = endline st"
    using respect_line_bounds [of n ps "st\<lparr>skipto := None\<rparr>" len] assms by simp
  show ?thesis using assms r by (simp add: loop_body_def Let_def)
qed

lemma run_loop_bounds:
  assumes "0 \<le> n" "n + int (length xs) \<le> len" "\<forall>b\<in>set ps. 0 \<le> b"
    and "0 \<le> startline st" "0 \<le> endline st" "endline st \<le> len"
  shows "0 \<le> startline (run_loop ps n xs st) \<and> 0 \<le> endline (run_loop ps n xs st)
       \<and> endline (run_loop ps n xs st) \<le> len"
  using assms
proof (induction xs arbitrary: n st)
  case Nil
  then show ?case by simp
next
  case (Cons a xs)
  have n: "n < len" using Cons.prems(2) by simp
  note b = loop_body_bounds [OF Cons.prems(1) n Cons.prems(3-6), of a]
  have "0 \<le> n + 1" "n + 1 + int (length xs) \<le> len" using Cons.prems(1,2) by simp_all
  from Cons.IH [OF this Cons.prems(3), of "loop_body ps n a st"] b show ?case by simp
qed

lemma locate_ps1_cases:
  assumes "locate_ps1 scan lines = Inr ps"
  shows "scan (source_lines lines) = Inr ps \<or> (scan (source_lines lines) = Inl IndexError \<and> lines = [] \<and> ps = [])"
  using assms by (auto simp add: locate_ps1_def split: sum.splits error.splits if_splits)

lemma rstrip_no_trailing: "rstrip x = [] \<or> \<not> isspace (last (rstrip x))"
proof (cases "dropWhile isspace (rev x)")
  case Nil
  then show ?thesis by (simp add: rstrip_def)
next
  case (Cons a as)
  then have "\<not> isspace a" by (metis hd_dropWhile list.sel(1) list.distinct(1))
  with Cons show ?thesis by (simp add: rstrip_def)
qed

section \<open>Facts about the string primitives\<close>

lemma split_nl_nonempty: "split_nl t \<noteq> []"
  by (induction t) simp_all

lemma split_nl_plain: "NL \<notin> set p \<Longrightarrow> split_nl p = [p]"
  by (induction p) auto

lemma split_nl_prepend:
  "NL \<notin> set p \<Longrightarrow> split_nl (p @ t) = (p @ hd (split_nl t)) # tl (split_nl t)"
  by (induction p) (auto simp add: split_nl_nonempty)

lemma split_nl_at_nl: "NL \<notin> set p \<Longrightarrow> split_nl (p @ NL # t) = p # split_nl t"
  by (simp add: split_nl_prepend)

lemma split_nl_replace:
  assumes "NL \<notin> set ind"
  shows "NL \<notin> set p \<Longrightarrow>
     split_nl (p @ replace_nl ind text) = (p @ hd (split_nl text)) # map ((@) ind) (tl (split_nl text))"
proof (induction "text" arbitrary: p)
  case Nil
  then show ?case by (simp add: replace_nl_def split_nl_plain)
next
  case (Cons c cs)
  show ?case
  proof (cases "c = NL")
    case True
    have "split_nl (p @ replace_nl ind (c # cs)) = split_nl (p @ NL # (ind @ replace_nl ind cs))"
      using True by (simp add: replace_nl_def)
    also have "\<dots> = p # split_nl (ind @ replace_nl ind cs)"
      using Cons.prems by (rule split_nl_at_nl)
    also have "\<dots> = p # (ind @ hd (split_nl cs)) # map ((@) ind) (tl (split_nl cs))"
      using Cons.IH [OF assms] by simp
    also have "\<dots> = p # map ((@) ind) (split_nl cs)"
      using split_nl_nonempty [of cs] by (cases "split_nl cs") simp_all
    finally show ?thesis using True by simp
  next
    case False
    have "NL \<notin> set (p @ [c])" using False Cons.prems by simp
    from Cons.IH [OF this] False show ?thesis by (simp add: replace_nl_def)
  qed
qed

lemma split_nl_indented:
  assumes "NL \<notin> set ind"
  shows "split_nl (ind @ replace_nl ind text) = map ((@) ind) (split_nl text)"
  using split_nl_replace [OF assms assms, of "text"] split_nl_nonempty [of "text"]
  by (cases "split_nl text") simp_all

lemma split_nl_pieces: "\<forall>x\<in>set (split_nl t). NL \<notin> set x"
proof (induction t)
  case Nil
  then show ?case by simp
next
  case (Cons c cs)
  then show ?case using split_nl_nonempty [of cs]
    by (cases "split_nl cs") auto
qed

lemma split_join_nl:
  "xs \<noteq> [] \<Longrightarrow> \<forall>x\<in>set xs. NL \<notin> set x \<Longrightarrow> split_nl (join_nl xs) = xs"
proof (induction xs rule: join_nl.induct)
  case 1
  then show ?case by simp
next
  case (2 x)
  then show ?case by (simp add: split_nl_plain)
next
  case (3 x y ys)
  then show ?case by (simp add: split_nl_at_nl)
qed

lemma set_rstrip: "set (rstrip x) \<subseteq> set x"
  by (auto simp add: rstrip_def dest: set_dropWhileD)

lemma split_nl_indent:
  assumes "NL \<notin> set ind"
  shows "split_nl (indent text ind) = map (\<lambda>l. rstrip (ind @ l)) (split_nl text)"
proof -
  let ?xs = "map rstrip (map ((@) ind) (split_nl text))"
  have ne: "?xs \<noteq> []" using split_nl_nonempty [of "text"] by simp
  have "\<forall>x\<in>set ?xs. NL \<notin> set x"
    using split_nl_pieces [of "text"] assms set_rstrip by fastforce
  from split_join_nl [OF ne this] show ?thesis
    by (simp add: indent_def split_nl_indented [OF assms] comp_def)
qed

lemma rstrip_append_nonspace:
  "\<exists>c\<in>set b. \<not> isspace c \<Longrightarrow> rstrip (a @ b) = a @ rstrip b"
  by (auto simp add: rstrip_def dropWhile_append)

lemma rstrip_all_space: "\<forall>c\<in>set b. isspace c \<Longrightarrow> rstrip (a @ b) = rstrip a"
  by (simp add: rstrip_def dropWhile_append)

lemma rstrip_keeps: "l \<noteq> [] \<Longrightarrow> \<not> isspace (last l) \<Longrightarrow> rstrip l = l"
  by (cases l rule: rev_cases) (simp_all add: rstrip_def)


section \<open>Facts about file lines\<close>

lemma complete_lineI: "NL \<notin> set b \<Longrightarrow> complete_line (b @ [NL])"
  by (simp add: complete_line_def)


lemma concat_cut_lines: "concat (cut_lines t) = t"
  by (induction t) (auto split: list.splits)

lemma cut_lines_plain: "NL \<notin> set b \<Longrightarrow> b \<noteq> [] \<Longrightarrow> cut_lines b = [b]"
proof (induction b)
  case Nil
  then show ?case by simp
next
  case (Cons c cs)
  then show ?case by (cases cs) auto
qed




lemma file_lines_cut_lines: "file_lines (cut_lines t)"
proof (induction t)
  case Nil
  then show ?case by simp
next
  case (Cons c cs)
  show ?case
  proof (cases "cut_lines cs")
    case Nil
    then show ?thesis by (simp add: complete_line_def)
  next
    case (Cons l ls)
    note rl = this
    show ?thesis
    proof (cases ls)
      case Nil
      with rl Cons.IH show ?thesis
        by (cases l) (auto simp add: complete_line_def)
    next
      case (Cons l' ls')
      with rl Cons.IH show ?thesis
        by (auto simp add: complete_line_def)
    qed
  qed
qed





lemma rstrip_decomp: "\<exists>w. l = rstrip l @ w \<and> (\<forall>c\<in>set w. isspace c)"
proof -
  have "rev (rev l) = rev (takeWhile isspace (rev l) @ dropWhile isspace (rev l))" by simp
  then have "l = rev (dropWhile isspace (rev l)) @ rev (takeWhile isspace (rev l))"
    by (simp only: rev_append rev_rev_ident)
  moreover have "\<forall>c\<in>set (rev (takeWhile isspace (rev l))). isspace c"
    by (auto dest: set_takeWhileD)
  ultimately show ?thesis unfolding rstrip_def by blast
qed


lemma rstrip_has_nonspace:
  assumes "\<exists>c\<in>set l. \<not> isspace c"
  shows "\<exists>c\<in>set (rstrip l). \<not> isspace c"
proof -
  obtain w where w: "l = rstrip l @ w" "\<forall>c\<in>set w. isspace c" using rstrip_decomp by blast
  from assms obtain c where "c \<in> set l" "\<not> isspace c" by blast
  moreover have "set l = set (rstrip l) \<union> set w" using w(1) by (metis set_append)
  ultimately have "c \<in> set (rstrip l)" using w(2) by auto
  with \<open>\<not> isspace c\<close> show ?thesis by blast
qed









section \<open>Facts about marker lines and the merged text\<close>

lemma close_marker_nonspace: "is_close_marker l \<Longrightarrow> \<exists>c\<in>set l. \<not> isspace c"
proof -
  assume "is_close_marker l"
  then obtain t where t: "strip l = close_tag @ t"
    by (auto simp add: is_close_marker_def startswith_iff)
  have "CHR ''#'' \<in> set (strip l)" unfolding t by (simp add: close_tag_def)
  moreover have "set (strip l) \<subseteq> set l"
    using set_rstrip [of "lstrip l"] by (auto simp add: strip_def lstrip_def dest: set_dropWhileD)
  moreover have "\<not> isspace (CHR ''#'')" by (simp add: isspace_def)
  ultimately show ?thesis by blast
qed

lemma open_marker_indent:
  assumes "is_open_marker l"
  shows "\<exists>r. l = slice_to (find_char (CHR ''#'') l) l @ CHR ''#'' # r
       \<and> (\<forall>c\<in>set (slice_to (find_char (CHR ''#'') l) l). isspace c)"
proof -
  from assms obtain t where t: "strip l = open_tag @ t"
    by (auto simp add: is_open_marker_def startswith_iff)
  obtain w where w: "lstrip l = rstrip (lstrip l) @ w" using rstrip_decomp by blast
  have l: "l = takeWhile isspace l @ lstrip l" by (simp add: lstrip_def)
  have "lstrip l = CHR ''#'' # (tl open_tag @ t @ w)"
    using w t by (simp add: strip_def open_tag_def)
  with l obtain r where r: "l = takeWhile isspace l @ CHR ''#'' # r" by metis
  have sp: "\<forall>c\<in>set (takeWhile isspace l). isspace c" by (auto dest: set_takeWhileD)
  have ns: "\<not> isspace (CHR ''#'')" by (simp add: isspace_def)
  have "takeWhile (\<lambda>x. x \<noteq> CHR ''#'') l = takeWhile isspace l"
  proof -
    have "takeWhile (\<lambda>x. x \<noteq> CHR ''#'') (takeWhile isspace l @ CHR ''#'' # r) = takeWhile isspace l"
      using sp ns by (intro takeWhile_tail [THEN trans] ) (auto simp add: takeWhile_append)
    then show ?thesis using r by simp
  qed
  moreover have "CHR ''#'' \<in> set l" using r by (metis in_set_conv_decomp)
  ultimately have "slice_to (find_char (CHR ''#'') l) l = take (length (takeWhile isspace l)) l"
    by (simp add: slice_to_def find_char_def)
  also have "\<dots> = takeWhile isspace l" using r by (metis append_eq_conv_conj)
  finally show ?thesis using r sp by auto
qed




lemma slice_nat: "slice_to (int n) xs = take n xs" "slice_from (int n) xs = drop n xs"
  "slice_to (int n + 1) xs = take (Suc n) xs"
  by (simp_all add: slice_to_def slice_from_def nat_add_distrib)

lemma insert_autogen_lines_markers:
  assumes found: "find_insert_points scan lines = Inr (int i + 1, int j, ind)"
    and j: "j < length lines" and cl: "is_close_marker (lines ! j)"
  shows "insert_autogen_lines scan lines initstr
       = Inr (concat (take (Suc i) lines) @ indent initstr ind @ [NL]
              @ rstrip (concat (drop j lines)) @ [NL])"
proof -
  have "drop j lines = lines ! j # drop (Suc j) lines" using j by (simp add: Cons_nth_drop_Suc)
  then have ns: "\<exists>c\<in>set (concat (drop j lines)). \<not> isspace c"
    using close_marker_nonspace [OF cl] by auto
  have "rstrip ((concat (take (Suc i) lines) @ indent initstr ind @ [NL]) @ concat (drop j lines))
      = (concat (take (Suc i) lines) @ indent initstr ind @ [NL]) @ rstrip (concat (drop j lines))"
    using ns by (rule rstrip_append_nonspace)
  then show ?thesis using found
    by (simp add: insert_autogen_lines_def Let_def slice_nat)
qed

lemma run_loop_last_open:
  assumes i: "i < length lines" and op: "is_open_marker (lines ! i)"
    and no_open: "\<forall>l\<in>set (drop (Suc i) lines). \<not> is_open_marker l"
    and ev: "evaluated ps lines i"
  shows "init_indent (run_loop ps 0 lines (init_state lines))
           = slice_to (find_char (CHR ''#'') (lines ! i)) (lines ! i)
       \<and> startline (run_loop ps 0 lines (init_state lines)) = int i + 1"
proof -
  define s0 where "s0 = run_loop ps 0 (take i lines) (init_state lines)"
  define s1 where "s1 = loop_body ps (int i) (lines ! i) s0"
  have l: "lines = take i lines @ lines ! i # drop (Suc i) lines"
    using i by (simp add: id_take_nth_drop [symmetric])
  have "run_loop ps 0 lines (init_state lines)
      = run_loop ps 0 (take i lines @ lines ! i # drop (Suc i) lines) (init_state lines)"
    using l by simp
  also have "\<dots> = run_loop ps (int i + 1) (drop (Suc i) lines) s1"
    using i by (simp add: run_loop_append s0_def s1_def)
  finally have final: "run_loop ps 0 lines (init_state lines)
      = run_loop ps (int i + 1) (drop (Suc i) lines) s1" .
  have k0: "skipto s0 = None \<or> skipto s0 = Some (int i)"
    using ev by (simp add: evaluated_def Let_def s0_def)
  note p1 = loop_body_open [OF k0 op, of ps, folded s1_def]
  from p1 have e1: "explicit_flag s1" by simp
  note p2 = run_loop_explicit_plain [OF e1 no_open, of ps "int i + 1"]
  show ?thesis using final p1 p2 by simp
qed

lemma four_space_indent:
  "slice_to (find_char (CHR ''#'') (''    '' @ CHR ''#'' # rest)) (''    '' @ CHR ''#'' # rest) = ''    ''"
  by (simp add: slice_to_def find_char_def)

lemma rstrip_four_spaces:
  "rstrip (''    '' @ l) = (if \<forall>c\<in>set l. isspace c then [] else ''    '' @ rstrip l)"
proof (cases "\<forall>c\<in>set l. isspace c")
  case True
  have "rstrip ''    '' = []" by (simp add: rstrip_def isspace_def)
  with True rstrip_all_space [OF True, of "''    ''"] show ?thesis by simp
next
  case False
  then have "\<exists>c\<in>set l. \<not> isspace c" by blast
  from rstrip_append_nonspace [OF this, of "''    ''"] False show ?thesis by simp
qed


lemma indent_join:
  assumes "NL \<notin> set ind"
  shows "indent initstr ind = join_nl (map (\<lambda>l. rstrip (ind @ l)) (split_nl initstr))"
  by (simp add: indent_def split_nl_indented [OF assms] comp_def)



section \<open>Facts about reading a file\<close>


lemma universal_newlines_no_cr: "CR \<notin> set (universal_newlines t)"
  by (induction t rule: universal_newlines.induct) (auto simp add: CR_def NL_def)


lemma file_lines_readlines: "file_lines (readlines t)"
  by (simp add: readlines_def file_lines_cut_lines)

lemma readlines_lines_no_cr: "\<forall>l\<in>set (readlines t). CR \<notin> set l"
proof -
  have "set (concat (readlines t)) = set (universal_newlines t)"
    by (simp add: readlines_def concat_cut_lines)
  then show ?thesis using universal_newlines_no_cr [of t] by auto
qed

section \<open>Facts about files without preserved lines, and about the located triple\<close>








lemma init_indent_respect_line [simp]:
  "init_indent (respect_line ps n st) = init_indent st"
  "endline (respect_line ps n st) = endline st"
  by (auto simp add: respect_line_def Let_def split: option.splits)

lemma loop_body_endline_nonneg:
  "0 \<le> n \<Longrightarrow> 0 \<le> endline st \<Longrightarrow> 0 \<le> endline (loop_body ps n l st)"
  by (simp add: loop_body_def Let_def)

lemma run_loop_endline_nonneg:
  "0 \<le> n \<Longrightarrow> 0 \<le> endline st \<Longrightarrow> 0 \<le> endline (run_loop ps n xs st)"
proof (induction xs arbitrary: n st)
  case Nil
  then show ?case by simp
next
  case (Cons a xs)
  from Cons.prems have "0 \<le> n + 1" "0 \<le> endline (loop_body ps n a st)"
    by (simp_all add: loop_body_endline_nonneg)
  from Cons.IH [OF this] show ?case by simp
qed

lemma located_end_nonneg:
  assumes "find_insert_points scan lines = Inr (s, e, ind)"
  shows "0 \<le> e"
proof -
  from assms obtain ps where "locate_ps1 scan lines = Inr ps"
    by (auto simp add: find_insert_points_def split: sum.splits)
  with assms have "e = endline (run_loop ps 0 lines (init_state lines))"
    by (auto simp add: find_insert_points_def Let_def split: if_splits)
  moreover have "0 \<le> endline (run_loop ps 0 lines (init_state lines))"
    by (rule run_loop_endline_nonneg) (simp_all add: init_state_def)
  ultimately show ?thesis by simp
qed

lemma loop_body_indent_nl:
  assumes "is_open_marker l \<longrightarrow> NL \<notin> set (slice_to (find_char (CHR ''#'') l) l)"
    and "NL \<notin> set (init_indent st)"
  shows "NL \<notin> set (init_indent (loop_body ps n l st))"
  using assms by (simp add: loop_body_def Let_def is_open_marker_def)

lemma run_loop_indent_nl:
  assumes "\<forall>l\<in>set xs. is_open_marker l \<longrightarrow> NL \<notin> set (slice_to (find_char (CHR ''#'') l) l)"
    and "NL \<notin> set (init_indent st)"
  shows "NL \<notin> set (init_indent (run_loop ps n xs st))"
  using assms
proof (induction xs arbitrary: n st)
  case Nil
  then show ?case by simp
next
  case (Cons a xs)
  from Cons.prems have a: "is_open_marker a \<longrightarrow> NL \<notin> set (slice_to (find_char (CHR ''#'') a) a)"
    and xs: "\<forall>l\<in>set xs. is_open_marker l \<longrightarrow> NL \<notin> set (slice_to (find_char (CHR ''#'') l) l)"
    by simp_all
  note b = loop_body_indent_nl [OF a Cons.prems(2), of ps n]
  from Cons.IH [OF xs b] show ?case by simp
qed

lemma file_lines_each: "file_lines ls \<Longrightarrow> \<forall>l\<in>set ls. l \<noteq> [] \<and> NL \<notin> set (butlast l)"
  by (induction ls rule: file_lines.induct) (auto simp add: complete_line_def)

lemma open_indent_no_nl:
  assumes "NL \<notin> set (butlast l)" "is_open_marker l"
  shows "NL \<notin> set (slice_to (find_char (CHR ''#'') l) l)"
proof -
  from open_marker_indent [OF assms(2)] obtain r where
    r: "l = slice_to (find_char (CHR ''#'') l) l @ CHR ''#'' # r" by blast
  have "butlast (slice_to (find_char (CHR ''#'') l) l @ CHR ''#'' # r)
      = slice_to (find_char (CHR ''#'') l) l @ butlast (CHR ''#'' # r)"
    by (simp add: butlast_append)
  with r have "butlast l = slice_to (find_char (CHR ''#'') l) l @ butlast (CHR ''#'' # r)"
    by simp
  with assms(1) show ?thesis by (metis Un_iff set_append)
qed

lemma located_indent_no_nl:
  assumes "file_lines lines" "find_insert_points scan lines = Inr (s, e, ind)"
  shows "NL \<notin> set ind"
proof -
  from assms(2) obtain ps where "locate_ps1 scan lines = Inr ps"
    by (auto simp add: find_insert_points_def split: sum.splits)
  with assms(2) have "ind = init_indent (run_loop ps 0 lines (init_state lines))"
    by (auto simp add: find_insert_points_def Let_def split: if_splits)
  moreover have "NL \<notin> set (init_indent (run_loop ps 0 lines (init_state lines)))"
  proof (rule run_loop_indent_nl)
    show "\<forall>l\<in>set lines. is_open_marker l \<longrightarrow> NL \<notin> set (slice_to (find_char (CHR ''#'') l) l)"
      using file_lines_each [OF assms(1)] open_indent_no_nl by blast
    show "NL \<notin> set (init_indent (init_state lines))" by (simp add: init_state_def)
  qed
  ultimately show ?thesis by simp
qed

section \<open>Facts about merging twice\<close>


















section \<open>Properties of the locator and of the merge\<close>

subsection \<open>C1\<close>

text \<open>
  C1, as stated, fails: with an opening marker at line 0 and closing markers at lines 2
  and 4, the first closing marker after the opening one is line 2, yet the end is 4.
\<close>

theorem first_close_marker_counterexample:
  "is_open_marker ''# <AUTOGEN_INIT>'' \<and> is_close_marker ''# </AUTOGEN_INIT>'' \<and>
   find_insert_points (\<lambda>_. Inr [0, 1, 2, 3, 4])
     [''# <AUTOGEN_INIT>'', ''a'', ''# </AUTOGEN_INIT>'', ''b'', ''# </AUTOGEN_INIT>'']
   = Inr (1, 4, [])"
  by code_simp

text \<open>
  C1, amended. Every evaluated opening marker line sets the start (and the indent) again
  and every closing marker line evaluated in explicit mode sets the end again, so the last
  marker lines decide: when the scanner returns, the last opening marker line is at index
  \<open>i\<close>, the last closing marker line is at index \<open>j > i\<close>, and neither line is jumped over by a
  pending skip, the locator returns start \<open>i + 1\<close> and end \<open>j\<close>, whatever marker lines come
  before them.
\<close>

theorem last_markers_decide:
  assumes "locate_ps1 scan lines = Inr ps"
    and "i < j" and "j < length lines"
    and "is_open_marker (lines ! i)" and "is_close_marker (lines ! j)"
    and "\<forall>l\<in>set (drop (Suc i) lines). \<not> is_open_marker l"
    and "\<forall>l\<in>set (drop (Suc j) lines). \<not> is_close_marker l"
    and "evaluated ps lines i" and "evaluated ps lines j"
  shows "\<exists>ind. find_insert_points scan lines = Inr (int i + 1, int j, ind)"
  using find_insert_points_markers [OF assms] by simp

theorem last_markers_decide_witness:
  "\<exists>ind. find_insert_points (\<lambda>_. Inr [0, 1, 2, 3, 4])
     [''# <AUTOGEN_INIT>'', ''# <AUTOGEN_INIT>'', ''# </AUTOGEN_INIT>'', ''b'', ''# </AUTOGEN_INIT>'']
   = Inr (int 1 + 1, int 4, ind)"
proof -
  let ?scan = "\<lambda>_. Inr [0, 1, 2, 3, 4] :: error + int list"
  let ?lines = "[''# <AUTOGEN_INIT>'', ''# <AUTOGEN_INIT>'', ''# </AUTOGEN_INIT>'', ''b'',
                 ''# </AUTOGEN_INIT>'']"
  have 1: "locate_ps1 ?scan ?lines = Inr [0, 1, 2, 3, 4]" by code_simp
  have 2: "(1::nat) < 4" "4 < length ?lines" by simp_all
  have 3: "is_open_marker (?lines ! 1)" "is_close_marker (?lines ! 4)" by code_simp+
  have 4: "\<forall>l\<in>set (drop (Suc 1) ?lines). \<not> is_open_marker l" by code_simp
  have 5: "\<forall>l\<in>set (drop (Suc 4) ?lines). \<not> is_close_marker l" by code_simp
  have 6: "evaluated [0, 1, 2, 3, 4] ?lines 1" "evaluated [0, 1, 2, 3, 4] ?lines 4" by code_simp+
  show ?thesis by (rule last_markers_decide [OF 1 2 3 4 5 6])
qed

subsection \<open>C2\<close>

text \<open>
  C2, as stated, fails in both halves. An opening marker line inside a docstring (boundaries
  0 and 3: the docstring is one statement) is jumped over, the pass never enters explicit
  mode, and the range is \<open>(4, 4)\<close> rather than \<open>(2, 3)\<close>. And a closing marker line that ends
  the file with a space before its line feed loses that space in the merged text.
\<close>

theorem single_marker_pair_counterexample:
  "find_insert_points (\<lambda>_. Inr [0, 3])
     [[CHR 0x22, CHR 0x22, CHR 0x22], ''# <AUTOGEN_INIT>'', [CHR 0x22, CHR 0x22, CHR 0x22],
      ''# </AUTOGEN_INIT>'']
   = Inr (4, 4, [])
   \<and> insert_autogen_lines (\<lambda>_. Inr [0, 1, 2])
       [''# <AUTOGEN_INIT>'' @ [NL], ''old'' @ [NL], ''# </AUTOGEN_INIT> '' @ [NL]] ''import a''
   = Inr (''# <AUTOGEN_INIT>'' @ [NL] @ ''import a'' @ [NL] @ ''# </AUTOGEN_INIT>'' @ [NL])"
  by code_simp

text \<open>
  C2, amended. When the scanner returns, line \<open>i\<close> is the only opening marker line, line
  \<open>j > i\<close> is the only closing marker line, and neither is jumped over by a pending skip,
  the locator returns \<open>(i + 1, j)\<close>, and the merged text is: the lines up to and including
  the opening marker line, unchanged; the indented content and a line feed; the closing
  marker line and the lines after it, right-trimmed as one text, and a final line feed.
\<close>

theorem single_marker_pair:
  assumes "locate_ps1 scan lines = Inr ps"
    and "i < j" and "j < length lines"
    and "is_open_marker (lines ! i)" and "is_close_marker (lines ! j)"
    and "\<forall>l\<in>set (take i lines @ drop (Suc i) lines). \<not> is_open_marker l"
    and "\<forall>l\<in>set (take j lines @ drop (Suc j) lines). \<not> is_close_marker l"
    and "evaluated ps lines i" and "evaluated ps lines j"
  shows "\<exists>ind. find_insert_points scan lines = Inr (int i + 1, int j, ind) \<and>
           insert_autogen_lines scan lines initstr
             = Inr (concat (take i lines) @ lines ! i @ indent initstr ind @ [NL]
                    @ rstrip (lines ! j @ concat (drop (Suc j) lines)) @ [NL])"
proof -
  let ?ind = "slice_to (find_char (CHR ''#'') (lines ! i)) (lines ! i)"
  have no_open: "\<forall>l\<in>set (drop (Suc i) lines). \<not> is_open_marker l"
    and no_close: "\<forall>l\<in>set (drop (Suc j) lines). \<not> is_close_marker l"
    using assms(6,7) by simp_all
  have found: "find_insert_points scan lines = Inr (int i + 1, int j, ?ind)"
    by (rule find_insert_points_markers [OF assms(1-5) no_open no_close assms(8,9)])
  have i: "i < length lines" using assms(2,3) by simp
  have t: "concat (take (Suc i) lines) = concat (take i lines) @ lines ! i"
    using i by (simp add: take_Suc_conv_app_nth)
  have d: "concat (drop j lines) = lines ! j @ concat (drop (Suc j) lines)"
    using assms(3) by (simp add: Cons_nth_drop_Suc [symmetric])
  from insert_autogen_lines_markers [OF found assms(3,5), of initstr] found t d
  show ?thesis by simp
qed

theorem single_marker_pair_witness:
  "\<exists>ind. find_insert_points (\<lambda>_. Inr [0, 1, 2])
       [''# <AUTOGEN_INIT>'' @ [NL], ''old'' @ [NL], ''# </AUTOGEN_INIT>'' @ [NL]]
     = Inr (int 0 + 1, int 2, ind) \<and>
   insert_autogen_lines (\<lambda>_. Inr [0, 1, 2])
       [''# <AUTOGEN_INIT>'' @ [NL], ''old'' @ [NL], ''# </AUTOGEN_INIT>'' @ [NL]] ''import a''
     = Inr (concat (take 0 [''# <AUTOGEN_INIT>'' @ [NL], ''old'' @ [NL], ''# </AUTOGEN_INIT>'' @ [NL]])
            @ [''# <AUTOGEN_INIT>'' @ [NL], ''old'' @ [NL], ''# </AUTOGEN_INIT>'' @ [NL]] ! 0
            @ indent ''import a'' ind @ [NL]
            @ rstrip ([''# <AUTOGEN_INIT>'' @ [NL], ''old'' @ [NL], ''# </AUTOGEN_INIT>'' @ [NL]] ! 2
                @ concat (drop (Suc 2)
                    [''# <AUTOGEN_INIT>'' @ [NL], ''old'' @ [NL], ''# </AUTOGEN_INIT>'' @ [NL]]))
            @ [NL])"
proof -
  let ?scan = "\<lambda>_. Inr [0, 1, 2] :: error + int list"
  let ?lines = "[''# <AUTOGEN_INIT>'' @ [NL], ''old'' @ [NL], ''# </AUTOGEN_INIT>'' @ [NL]]"
  have 1: "locate_ps1 ?scan ?lines = Inr [0, 1, 2]" by code_simp
  have 2: "(0::nat) < 2" "2 < length ?lines" by simp_all
  have 3: "is_open_marker (?lines ! 0)" "is_close_marker (?lines ! 2)" by code_simp+
  have 4: "\<forall>l\<in>set (take 0 ?lines @ drop (Suc 0) ?lines). \<not> is_open_marker l" by code_simp
  have 5: "\<forall>l\<in>set (take 2 ?lines @ drop (Suc 2) ?lines). \<not> is_close_marker l" by code_simp
  have 6: "evaluated [0, 1, 2] ?lines 0" "evaluated [0, 1, 2] ?lines 2" by code_simp+
  show ?thesis by (rule single_marker_pair [OF 1 2 3 4 5 6])
qed

subsection \<open>C3\<close>




subsection \<open>C4\<close>

text \<open>
  C4. Multi-line preamble skip. The lines \<^verbatim>\<open>['__version__ = (', '  # c', '  2)']\<close> are one
  statement, so the scanner reports the single boundary 0. Line 0 matches an implicit
  pattern and is the last boundary: the start moves to the end (3), but \<open>skipto\<close> stays
  unset, line 1 is evaluated, matches \<^verbatim>\<open>#\<close>, and the start becomes 2, strictly inside the
  statement.
\<close>

theorem last_statement_not_skipped:
  "is_implicit ''__version__ = ('' \<and> list_index [0] (0::int) = Some 0 \<and>
   find_insert_points (\<lambda>_. Inr [0]) [''__version__ = ('', ''  # c'', ''  2)''] = Inr (2, 3, [])"
  by code_simp

subsection \<open>C5\<close>

text \<open>
  C5, as stated, fails: with the indent of four spaces the blank second line of the content
  comes out empty, not as the indent, and the trailing space of the third line is removed.
\<close>

theorem indent_verbatim_counterexample:
  "split_nl (''a'' @ [NL, NL] @ ''b '') = [''a'', [], ''b '']
   \<and> split_nl (indent (''a'' @ [NL, NL] @ ''b '') ''    '') = [''    a'', [], ''    b'']"
  by code_simp

text \<open>
  C5, amended. For an indent without a line feed, each line of the indented block is the
  indent followed by the corresponding line of the content, right-trimmed (so a blank line
  under a blank indent comes out empty); a content line that does not end in whitespace
  comes out as the indent followed by the line, unchanged.
\<close>

theorem indent_lines_trimmed:
  assumes "NL \<notin> set ind"
  shows "split_nl (indent text ind) = map (\<lambda>l. rstrip (ind @ l)) (split_nl text)
       \<and> (\<forall>l\<in>set (split_nl text). l \<noteq> [] \<and> \<not> isspace (last l) \<longrightarrow> rstrip (ind @ l) = ind @ l)"
proof
  show "split_nl (indent text ind) = map (\<lambda>l. rstrip (ind @ l)) (split_nl text)"
    by (rule split_nl_indent [OF assms])
  show "\<forall>l\<in>set (split_nl text). l \<noteq> [] \<and> \<not> isspace (last l) \<longrightarrow> rstrip (ind @ l) = ind @ l"
  proof (intro ballI impI)
    fix l assume "l \<noteq> [] \<and> \<not> isspace (last l)"
    then have "ind @ l \<noteq> []" "\<not> isspace (last (ind @ l))" by simp_all
    then show "rstrip (ind @ l) = ind @ l" by (rule rstrip_keeps)
  qed
qed

theorem indent_lines_trimmed_witness:
  "split_nl (indent (''a'' @ [NL, NL] @ ''b '') ''    '')
     = map (\<lambda>l. rstrip (''    '' @ l)) (split_nl (''a'' @ [NL, NL] @ ''b ''))
   \<and> rstrip (''    '' @ ''a'') = ''    '' @ ''a''"
proof -
  have 1: "NL \<notin> set ''    ''" by code_simp
  have 2: "''a'' \<in> set (split_nl (''a'' @ [NL, NL] @ ''b ''))" by code_simp
  have 3: "''a'' \<noteq> [] \<and> \<not> isspace (last ''a'')" by code_simp
  from indent_lines_trimmed [OF 1, of "''a'' @ [NL, NL] @ ''b ''"] 2 3
  show ?thesis by blast
qed

subsection \<open>C6\<close>

text \<open>
  C6. For the lines of a file as it is read (none when the file is absent), whenever the
  locator returns \<open>(start, end, indent)\<close>, the merged text is the join of
  \<^verbatim>\<open>lines[:start]\<close>, the indented content plus a line feed, and \<^verbatim>\<open>lines[end:]\<close>,
  right-trimmed, plus one line feed: it ends with exactly one line feed and has no other
  trailing whitespace. Here \<^verbatim>\<open>lines[:start]\<close> is Python's slice (a negative start counts
  from the end), the end is never negative, and the indented content is every line of the
  content with the indent put before it and then right-trimmed, joined by line feeds. For an
  empty file (absent, or present and empty) and the content \<^verbatim>\<open>"import a\nimport b"\<close> the
  merged text is \<^verbatim>\<open>"import a\nimport b\n"\<close>.
\<close>

theorem merged_text_splice:
  "(lines = (case file of None \<Rightarrow> [] | Some t \<Rightarrow> readlines t) \<and>
    find_insert_points scan lines = Inr (s, e, ind) \<longrightarrow>
      (\<exists>body. insert_autogen_text scan file initstr = Inr (body @ [NL])
         \<and> body = rstrip (concat (take (nat (if s < 0 then int (length lines) + s else s)) lines)
                          @ join_nl (map (\<lambda>l. rstrip (ind @ l)) (split_nl initstr)) @ [NL]
                          @ concat (drop (nat e) lines))
         \<and> (body = [] \<or> \<not> isspace (last body))))
   \<and> (locate_ps1 scan [] = Inr ps \<longrightarrow>
        insert_autogen_text scan None (''import a'' @ [NL] @ ''import b'')
          = Inr (''import a'' @ [NL] @ ''import b'' @ [NL])
      \<and> insert_autogen_text scan (Some []) (''import a'' @ [NL] @ ''import b'')
          = Inr (''import a'' @ [NL] @ ''import b'' @ [NL]))"
proof (intro conjI impI)
  assume a: "lines = (case file of None \<Rightarrow> [] | Some t \<Rightarrow> readlines t) \<and>
    find_insert_points scan lines = Inr (s, e, ind)"
  then have found: "find_insert_points scan lines = Inr (s, e, ind)" by (rule conjunct2)
  from a have l: "lines = (case file of None \<Rightarrow> [] | Some t \<Rightarrow> readlines t)" by (rule conjunct1)
  have "file_lines lines" unfolding l by (cases "file") (simp_all add: file_lines_readlines)
  then have nl: "NL \<notin> set ind" using found by (rule located_indent_no_nl)
  have e: "0 \<le> e" using found by (rule located_end_nonneg)
  have 1: "slice_from e lines = drop (nat e) lines" using e by (simp add: slice_from_def)
  have 2: "slice_to s lines = take (nat (if s < 0 then int (length lines) + s else s)) lines"
    by (simp add: slice_to_def)
  have 3: "indent initstr ind = join_nl (map (\<lambda>l. rstrip (ind @ l)) (split_nl initstr))"
    by (rule indent_join [OF nl])
  have "insert_autogen_text scan file initstr
      = Inr (rstrip (concat (slice_to s lines @ [indent initstr ind @ [NL]] @ slice_from e lines)) @ [NL])"
    using found unfolding l by (simp add: insert_autogen_text_def insert_autogen_lines_def Let_def)
  then show "\<exists>body. insert_autogen_text scan file initstr = Inr (body @ [NL])
         \<and> body = rstrip (concat (take (nat (if s < 0 then int (length lines) + s else s)) lines)
                          @ join_nl (map (\<lambda>l. rstrip (ind @ l)) (split_nl initstr)) @ [NL]
                          @ concat (drop (nat e) lines))
         \<and> (body = [] \<or> \<not> isspace (last body))"
    using rstrip_no_trailing by (simp add: 1 2 3)
next
  have t: "rstrip (concat (slice_to 0 [] @ [indent (''import a'' @ [NL] @ ''import b'') [] @ [NL]] @ slice_from 0 [])) @ [NL]
     = ''import a'' @ [NL] @ ''import b'' @ [NL]"
    by code_simp
  assume "locate_ps1 scan [] = Inr ps"
  then have f: "find_insert_points scan [] = Inr (0, 0, [])"
    by (simp add: find_insert_points_def init_state_def)
  show "insert_autogen_text scan None (''import a'' @ [NL] @ ''import b'')
          = Inr (''import a'' @ [NL] @ ''import b'' @ [NL])"
    using f t by (simp add: insert_autogen_text_def insert_autogen_lines_def Let_def)
  have "readlines [] = []" by (simp add: readlines_def)
  then show "insert_autogen_text scan (Some []) (''import a'' @ [NL] @ ''import b'')
          = Inr (''import a'' @ [NL] @ ''import b'' @ [NL])"
    using f t by (simp add: insert_autogen_text_def insert_autogen_lines_def Let_def)
qed

theorem merged_text_splice_witness:
  "insert_autogen_text (\<lambda>_. Inr [0, 1, 5])
     (Some (''preserved1 = True'' @ [CR, NL] @ ''if True:'' @ [NL] @ ''    # <AUTOGEN_INIT>'' @ [NL]
            @ ''    clobbered2 = True'' @ [NL] @ ''    # </AUTOGEN_INIT>'' @ [NL]
            @ ''preserved3 = True'' @ [NL]))
     (''import a'' @ [NL, NL] @ ''import b  '')
     = Inr (''preserved1 = True'' @ [NL] @ ''if True:'' @ [NL] @ ''    # <AUTOGEN_INIT>'' @ [NL]
            @ ''    import a'' @ [NL, NL] @ ''    import b'' @ [NL]
            @ ''    # </AUTOGEN_INIT>'' @ [NL] @ ''preserved3 = True'' @ [NL])
   \<and> insert_autogen_text (\<lambda>_. Inl IndexError) None (''import a'' @ [NL] @ ''import b'')
     = Inr (''import a'' @ [NL] @ ''import b'' @ [NL])"
proof -
  let ?scan = "\<lambda>_. Inr [0, 1, 5] :: error + int list"
  let ?text = "''preserved1 = True'' @ [CR, NL] @ ''if True:'' @ [NL] @ ''    # <AUTOGEN_INIT>'' @ [NL]
            @ ''    clobbered2 = True'' @ [NL] @ ''    # </AUTOGEN_INIT>'' @ [NL]
            @ ''preserved3 = True'' @ [NL]"
  let ?lines = "[''preserved1 = True'' @ [NL], ''if True:'' @ [NL], ''    # <AUTOGEN_INIT>'' @ [NL],
                 ''    clobbered2 = True'' @ [NL], ''    # </AUTOGEN_INIT>'' @ [NL],
                 ''preserved3 = True'' @ [NL]]"
  let ?gen = "''import a'' @ [NL, NL] @ ''import b  ''"
  have 1: "?lines = (case Some ?text of None \<Rightarrow> [] | Some t \<Rightarrow> readlines t)" by code_simp
  have 2: "find_insert_points ?scan ?lines = Inr (3, 4, ''    '')" by code_simp
  have 3: "rstrip (concat (take (nat (if (3::int) < 0 then int (length ?lines) + 3 else 3)) ?lines)
                   @ join_nl (map (\<lambda>l. rstrip (''    '' @ l)) (split_nl ?gen)) @ [NL]
                   @ concat (drop (nat 4) ?lines))
         = ''preserved1 = True'' @ [NL] @ ''if True:'' @ [NL] @ ''    # <AUTOGEN_INIT>'' @ [NL]
            @ ''    import a'' @ [NL, NL] @ ''    import b'' @ [NL]
            @ ''    # </AUTOGEN_INIT>'' @ [NL] @ ''preserved3 = True''" by code_simp
  have 4: "locate_ps1 (\<lambda>_. Inl IndexError) [] = Inr []" by code_simp
  from merged_text_splice [of ?lines "Some ?text" ?scan 3 4 "''    ''" ?gen] 1 2 3
  have a: "insert_autogen_text ?scan (Some ?text) ?gen
     = Inr (''preserved1 = True'' @ [NL] @ ''if True:'' @ [NL] @ ''    # <AUTOGEN_INIT>'' @ [NL]
            @ ''    import a'' @ [NL, NL] @ ''    import b'' @ [NL]
            @ ''    # </AUTOGEN_INIT>'' @ [NL] @ ''preserved3 = True'' @ [NL])"
    by auto
  from merged_text_splice [where scan = "\<lambda>_. Inl IndexError" and ps = "[]"] 4
  have b: "insert_autogen_text (\<lambda>_. Inl IndexError) None (''import a'' @ [NL] @ ''import b'')
     = Inr (''import a'' @ [NL] @ ''import b'' @ [NL])" by blast
  from a b show ?thesis by blast
qed

subsection \<open>C7\<close>

text \<open>
  C7. Malformed marker pairing is fatal: when the pass ends with start above end the
  locator raises \<^verbatim>\<open>AssertionError\<close>, and it never returns a triple with start above end.
\<close>

theorem malformed_markers_fatal:
  "(locate_ps1 scan lines = Inr ps \<and>
    endline (run_loop ps 0 lines (init_state lines)) < startline (run_loop ps 0 lines (init_state lines))
      \<longrightarrow> find_insert_points scan lines = Inl AssertionError)
   \<and> (find_insert_points scan lines = Inr (s, e, ind) \<longrightarrow> s \<le> e)"
  by (auto simp add: find_insert_points_def Let_def split: sum.splits if_splits)

theorem malformed_markers_fatal_witness:
  "find_insert_points (\<lambda>_. Inr [0, 1, 2])
     [''# <AUTOGEN_INIT>'', ''# </AUTOGEN_INIT>'', ''# <AUTOGEN_INIT>''] = Inl AssertionError
   \<and> (1::int) \<le> 3"
proof -
  let ?scan = "\<lambda>_. Inr [0, 1, 2] :: error + int list"
  let ?bad = "[''# <AUTOGEN_INIT>'', ''# </AUTOGEN_INIT>'', ''# <AUTOGEN_INIT>'']"
  have 1: "locate_ps1 ?scan ?bad = Inr [0, 1, 2]" by code_simp
  have 2: "endline (run_loop [0, 1, 2] 0 ?bad (init_state ?bad))
         < startline (run_loop [0, 1, 2] 0 ?bad (init_state ?bad))" by code_simp
  have 3: "find_insert_points ?scan [''#comment'', ''x = 1'', ''y = 2''] = Inr (1, 3, [])"
    by code_simp
  from malformed_markers_fatal [of ?scan ?bad "[0, 1, 2]"] 1 2
  have a: "find_insert_points ?scan ?bad = Inl AssertionError" by blast
  from malformed_markers_fatal [of ?scan "[''#comment'', ''x = 1'', ''y = 2'']" _ 1 3 "[]"] 3
  have b: "(1::int) \<le> 3" by blast
  from a b show ?thesis by blast
qed

subsection \<open>C8\<close>

text \<open>
  C8. Insertion-point invariant: whenever the locator returns and every boundary the
  scanner reports lies within the file, the returned triple satisfies
  \<open>0 \<le> start \<le> end \<le> len(lines)\<close>.
\<close>

theorem insertion_point_invariant:
  assumes ret: "find_insert_points scan lines = Inr (s, e, ind)"
    and within: "\<forall>ps. scan (source_lines lines) = Inr ps \<longrightarrow>
                   (\<forall>b\<in>set ps. 0 \<le> b \<and> b \<le> int (length lines))"
  shows "0 \<le> s \<and> s \<le> e \<and> e \<le> int (length lines)"
proof -
  from ret obtain ps where ps: "locate_ps1 scan lines = Inr ps"
    by (auto simp add: find_insert_points_def split: sum.splits)
  have nonneg: "\<forall>b\<in>set ps. 0 \<le> b"
    using locate_ps1_cases [OF ps] within by auto
  define st where "st = run_loop ps 0 lines (init_state lines)"
  have "0 \<le> startline st \<and> 0 \<le> endline st \<and> endline st \<le> int (length lines)"
    unfolding st_def
    by (rule run_loop_bounds) (simp_all add: nonneg init_state_def)
  moreover have "startline st \<le> endline st \<and> s = startline st \<and> e = endline st"
    using ret ps by (auto simp add: find_insert_points_def Let_def st_def split: if_splits)
  ultimately show ?thesis by simp
qed

theorem insertion_point_invariant_witness:
  "0 \<le> (1::int) \<and> (1::int) \<le> 3 \<and> (3::int) \<le> int (length [''#comment'', ''x = 1'', ''y = 2''])"
proof -
  let ?scan = "\<lambda>_. Inr [0, 1, 2] :: error + int list"
  have 1: "find_insert_points ?scan [''#comment'', ''x = 1'', ''y = 2''] = Inr (1, 3, [])"
    by code_simp
  have 2: "\<forall>ps. ?scan (source_lines [''#comment'', ''x = 1'', ''y = 2'']) = Inr ps \<longrightarrow>
             (\<forall>b\<in>set ps. 0 \<le> b \<and> b \<le> int (length [''#comment'', ''x = 1'', ''y = 2'']))"
    by auto
  show ?thesis by (rule insertion_point_invariant [OF 1 2])
qed

subsection \<open>C9\<close>

text \<open>
  C9. Preamble preservation, exact boundary: for the lines \<^verbatim>\<open>['#comment', 'x = 1', 'y = 2']\<close>,
  with the scanner reporting each of the three lines as a statement boundary, no implicit
  pattern matches \<^verbatim>\<open>'x = 1'\<close> and the locator returns start 1 and end 3 (with an empty
  indent).
\<close>

theorem preamble_exact_boundary:
  assumes "scan (source_lines [''#comment'', ''x = 1'', ''y = 2'']) = Inr [0, 1, 2]"
  shows "\<not> is_implicit ''x = 1'' \<and>
         find_insert_points scan [''#comment'', ''x = 1'', ''y = 2''] = Inr (1, 3, [])"
  using assms x_no_pattern
  by (simp add: find_insert_points_def locate_ps1_def pass_comment_x_y del: run_loop.simps)

theorem preamble_exact_boundary_witness:
  "find_insert_points (\<lambda>_. Inr [0, 1, 2]) [''#comment'', ''x = 1'', ''y = 2''] = Inr (1, 3, [])"
  using preamble_exact_boundary [of "\<lambda>_. Inr [0, 1, 2]"] by simp

subsection \<open>C10\<close>

text \<open>
  C10, as stated, fails: the first opening marker line has four spaces before its comment
  character, a second one has none, and the captured indent is the empty one of the second.
\<close>

theorem first_marker_indent_counterexample:
  "find_insert_points (\<lambda>_. Inr [1, 2])
     [''    # <AUTOGEN_INIT>'', ''# <AUTOGEN_INIT>'', ''# </AUTOGEN_INIT>'']
   = Inr (2, 2, [])"
  by code_simp

text \<open>
  C10, amended. Indent capture follows the last opening marker line: when the locator
  returns, the last opening marker line has exactly four spaces before its comment
  character and is not jumped over by a pending skip, the captured indent is those four
  spaces, every content line that is not blank comes out as the four spaces followed by
  the right-trimmed line, every blank content line comes out empty, and the merged text
  holds that block.
\<close>

theorem indent_capture:
  assumes "locate_ps1 scan lines = Inr ps"
    and "i < length lines"
    and "lines ! i = ''    '' @ CHR ''#'' # rest" and "is_open_marker (lines ! i)"
    and "\<forall>l\<in>set (drop (Suc i) lines). \<not> is_open_marker l"
    and "evaluated ps lines i"
    and "find_insert_points scan lines = Inr (s, e, ind)"
  shows "ind = ''    '' \<and>
         split_nl (indent initstr ind)
           = map (\<lambda>l. if \<forall>c\<in>set l. isspace c then [] else ''    '' @ rstrip l) (split_nl initstr) \<and>
         insert_autogen_lines scan lines initstr
           = Inr (rstrip (concat (slice_to s lines @ [indent initstr ''    '' @ [NL]]
                                  @ slice_from e lines)) @ [NL])"
proof -
  have "init_indent (run_loop ps 0 lines (init_state lines)) = ''    ''"
    using run_loop_last_open [OF assms(2,4,5,6)] assms(3) four_space_indent [of rest] by simp
  then have ind: "ind = ''    ''"
    using assms(1,7) by (auto simp add: find_insert_points_def Let_def split: if_splits)
  have nl: "NL \<notin> set ''    ''" by (simp add: NL_def)
  have "split_nl (indent initstr ''    '')
      = map (\<lambda>l. if \<forall>c\<in>set l. isspace c then [] else ''    '' @ rstrip l) (split_nl initstr)"
    unfolding split_nl_indent [OF nl] rstrip_four_spaces ..
  moreover have "insert_autogen_lines scan lines initstr
           = Inr (rstrip (concat (slice_to s lines @ [indent initstr ''    '' @ [NL]]
                                  @ slice_from e lines)) @ [NL])"
    using assms(7) ind by (simp add: insert_autogen_lines_def Let_def)
  ultimately show ?thesis using ind by simp
qed

theorem indent_capture_witness:
  "split_nl (indent (''a'' @ [NL, NL] @ ''b'') ''    '')
     = map (\<lambda>l. if \<forall>c\<in>set l. isspace c then [] else ''    '' @ rstrip l)
         (split_nl (''a'' @ [NL, NL] @ ''b''))"
proof -
  let ?scan = "\<lambda>_. Inr [0, 1, 5] :: error + int list"
  let ?lines = "[''preserved1 = True'', ''if True:'', ''    # <AUTOGEN_INIT>'',
                 ''    clobbered2 = True'', ''    # </AUTOGEN_INIT>'', ''preserved3 = True'']"
  have 1: "locate_ps1 ?scan ?lines = Inr [0, 1, 5]" by code_simp
  have 2: "2 < length ?lines" by simp
  have 3: "?lines ! 2 = ''    '' @ CHR ''#'' # '' <AUTOGEN_INIT>''" by simp
  have 4: "is_open_marker (?lines ! 2)" by code_simp
  have 5: "\<forall>l\<in>set (drop (Suc 2) ?lines). \<not> is_open_marker l" by code_simp
  have 6: "evaluated [0, 1, 5] ?lines 2" by code_simp
  have 7: "find_insert_points ?scan ?lines = Inr (3, 4, ''    '')" by code_simp
  from indent_capture [OF 1 2 3 4 5 6 7, of "''a'' @ [NL, NL] @ ''b''"]
  show ?thesis by simp
qed

end
